theory Spec2Isabelle
  imports Main "HOL-Library.AList" "HOL-Library.Multiset"
begin

section \<open>Fetcher: concurrent URL fetching (fetcher.py)\<close>

text \<open>
  The program is one Python module: \<^verbatim>\<open>fetch_url\<close>, \<^verbatim>\<open>main\<close> and the command-line
  script under \<^verbatim>\<open>if __name__ == "__main__"\<close>. Everything outside the module (the network
  behind \<^verbatim>\<open>requests.get\<close>, the interleaving of the worker threads, the file system) is an
  explicit environment; everything the module changes (requests sent, text printed, files
  written) is an explicit world that every function takes and returns. An exception is a
  value \<open>Inl e\<close>; the world travels beside it, since what was printed before a raise stays
  printed. Python's \<^verbatim>\<open>str\<close> is \<open>string\<close>, one \<open>char\<close> per code point below 256.
\<close>

subsection \<open>Exceptions, network replies, the world\<close>

datatype exn =
    ValueError string
  | AttributeError string
  | TypeError string
  | OSError string
  | RequestException string
  | OtherException string

text \<open>\<^verbatim>\<open>str(e)\<close>, as the f-strings of lines 18 and 60 render an exception.\<close>

fun str_exn :: "exn \<Rightarrow> string" where
  "str_exn (ValueError m) = m"
| "str_exn (AttributeError m) = m"
| "str_exn (TypeError m) = m"
| "str_exn (OSError m) = m"
| "str_exn (RequestException m) = m"
| "str_exn (OtherException m) = m"

text \<open>
  What one call of \<^verbatim>\<open>requests.get(url)\<close> does: it returns a response (status code and
  \<^verbatim>\<open>response.text\<close>) or raises. \<open>RequestException\<close> stands for the class and its subclasses
  (timeout, connection error, invalid URL, too many redirects).
\<close>

datatype http_reply = Response nat string | Raises exn

record world =
  requested :: "string list"
  stdout :: "string list"
  files :: "string \<rightharpoonup> string"

text \<open>
  \<open>requested\<close>: the URLs handed to \<^verbatim>\<open>requests.get\<close>, in the order the calls began;
  \<open>stdout\<close>: one entry per \<^verbatim>\<open>print\<close> call; \<open>files\<close>: path to contents.
\<close>

datatype event = Begin | Complete nat

record env =
  net :: "nat \<Rightarrow> string \<Rightarrow> http_reply"
  sched :: "event list"
  writable :: "string \<Rightarrow> bool"

text \<open>
  \<open>net env i\<close> is \<^verbatim>\<open>requests.get\<close> as the \<open>i\<close>-th submitted task meets it (two tasks
  with one URL may get different replies); \<open>sched env\<close> is the interleaving the operating
  system chooses for the worker threads; \<open>writable env path\<close> says whether
  \<^verbatim>\<open>open(path, 'w')\<close> succeeds.
\<close>

subsection \<open>\<^verbatim>\<open>fetch_url\<close> (lines 13-18)\<close>

definition fetch_url :: "(string \<Rightarrow> http_reply) \<Rightarrow> string \<Rightarrow> exn + string" where
  "fetch_url get url =
     (case get url of
        Response status text \<Rightarrow> Inr text
      | Raises e \<Rightarrow>
          (case e of
             RequestException m \<Rightarrow> Inr (''Error: '' @ str_exn e)
           | _ \<Rightarrow> Inl e))"

subsection \<open>The thread pool (lines 52-54)\<close>

text \<open>
  \<^verbatim>\<open>ThreadPoolExecutor(max_workers)\<close> of Python's standard library: the constructor raises
  \<^verbatim>\<open>ValueError\<close> for \<^verbatim>\<open>max_workers <= 0\<close>; \<^verbatim>\<open>submit\<close> appends a work item to a FIFO queue;
  at most \<^verbatim>\<open>max_workers\<close> worker threads each take the head of the queue, run it to its
  end and take the next. A task is the pair of its submission index (the identity of its
  future) and its URL.

  \<open>queue\<close>: submitted, not begun, in submission order; \<open>running\<close>: begun, not ended;
  \<open>started\<close>: every task begun so far, in the order they began; \<open>finished\<close>: ended, in
  the order they ended, which is the order \<^verbatim>\<open>as_completed\<close> yields the futures.
\<close>

type_synonym task = "nat \<times> string"

record pool =
  queue :: "task list"
  running :: "task list"
  started :: "task list"
  finished :: "task list"

text \<open>Line 53: one \<^verbatim>\<open>submit\<close> per URL, in input order.\<close>

definition submit_all :: "string list \<Rightarrow> pool" where
  "submit_all urls = \<lparr>queue = enumerate 0 urls, running = [], started = [], finished = []\<rparr>"

text \<open>
  One scheduling event. \<open>Begin\<close>: a free worker takes the head of the queue.
  \<open>Complete i\<close>: the \<open>i\<close>-th running task ends. An event that cannot happen in the
  state (no free worker, empty queue, no such running task) leaves the state as it is.
\<close>

fun pool_event :: "nat \<Rightarrow> event \<Rightarrow> pool \<Rightarrow> pool" where
  "pool_event w Begin p =
     (case queue p of
        [] \<Rightarrow> p
      | t # q \<Rightarrow>
          if length (running p) < w
          then p\<lparr>queue := q, running := running p @ [t], started := started p @ [t]\<rparr>
          else p)"
| "pool_event w (Complete i) p =
     (if i < length (running p)
      then p\<lparr>running := take i (running p) @ drop (Suc i) (running p),
             finished := finished p @ [running p ! i]\<rparr>
      else p)"

text \<open>
  Leaving the \<^verbatim>\<open>with\<close> block waits for every submitted task: once the scheduled events
  are used up the pool runs on, beginning a task whenever a worker is free and ending
  the oldest running task otherwise, until nothing is queued or running. The result is
  the list of the states passed through, the last one last.
\<close>

function drain_trace :: "nat \<Rightarrow> pool \<Rightarrow> pool list" where
  "drain_trace w p =
     (if queue p \<noteq> [] \<and> length (running p) < w then p # drain_trace w (pool_event w Begin p)
      else if running p \<noteq> [] then p # drain_trace w (pool_event w (Complete 0) p)
      else [p])"
  by pat_completeness auto
termination
  by (relation "measure (\<lambda>(w, p). 2 * length (queue p) + length (running p))")
     (auto split: list.splits)

declare drain_trace.simps [simp del]

fun pool_trace :: "nat \<Rightarrow> event list \<Rightarrow> pool \<Rightarrow> pool list" where
  "pool_trace w [] p = drain_trace w p"
| "pool_trace w (e # es) p = p # pool_trace w es (pool_event w e p)"

subsection \<open>The fetch loop of \<^verbatim>\<open>main\<close> (lines 51-60)\<close>

text \<open>
  Lines 55-60, the body of the loop over \<^verbatim>\<open>as_completed\<close>: the URL of the future, and
  its result or the text of the exception it raised.
\<close>

definition collect :: "env \<Rightarrow> task \<Rightarrow> string \<times> string" where
  "collect e t =
     (case t of (i, url) \<Rightarrow>
        (case fetch_url (net e i) url of
           Inr data \<Rightarrow> (url, data)
         | Inl exc \<Rightarrow> (url, ''Generated an exception: '' @ str_exn exc)))"

definition fetch_all ::
  "env \<Rightarrow> int \<Rightarrow> string list \<Rightarrow> world \<Rightarrow> (exn + (string \<times> string) list) \<times> world" where
  "fetch_all e max_workers urls wld =
     (if max_workers \<le> 0
      then (Inl (ValueError ''max_workers must be greater than 0''), wld)
      else
        let p = last (pool_trace (nat max_workers) (sched e) (submit_all urls));
            results = map (collect e) (finished p)
        in (Inr results, wld\<lparr>requested := requested wld @ map snd (started p)\<rparr>))"

text \<open>
  What holds of the pool at every instant, for the task list \<open>ts\<close> that was submitted:
  no more than \<open>w\<close> tasks are running; the tasks begun so far are a prefix of \<open>ts\<close> and
  the queue is the rest of it; every task begun is running or finished, once.
\<close>

definition pool_inv :: "nat \<Rightarrow> task list \<Rightarrow> pool \<Rightarrow> bool" where
  "pool_inv w ts p \<longleftrightarrow>
     length (running p) \<le> w \<and>
     (\<exists>k. queue p = drop k ts \<and> started p = take k ts) \<and>
     mset (running p) + mset (finished p) = mset (started p)"

subsection \<open>JSON output (lines 62-68)\<close>

text \<open>
  \<^verbatim>\<open>{url: result for url, result in results}\<close>: a Python dict keeps its keys in the order
  of their first insertion, and a repeated key keeps its place and takes the new value.
  That is \<open>AList.update\<close> on an association list.
\<close>

definition dict_comp :: "(string \<times> string) list \<Rightarrow> (string \<times> string) list" where
  "dict_comp results = foldl (\<lambda>d (url, result). AList.update url result d) [] results"

text \<open>\<^verbatim>\<open>sep.join(xs)\<close>.\<close>

fun join :: "string \<Rightarrow> string list \<Rightarrow> string" where
  "join sep [] = []"
| "join sep [x] = x"
| "join sep (x # y # ys) = x @ sep @ join sep (y # ys)"

definition hex_digit :: "nat \<Rightarrow> char" where
  "hex_digit n = ''0123456789abcdef'' ! (n mod 16)"

text \<open>
  \<^verbatim>\<open>json.dumps\<close> with its default \<^verbatim>\<open>ensure_ascii=True\<close>: the quotation mark, the backslash
  and the five short escapes; every other character outside space..tilde becomes
  \<^verbatim>\<open>\u00xx\<close> in lower-case hexadecimal.
\<close>

definition json_escape_char :: "char \<Rightarrow> string" where
  "json_escape_char c =
     (if c = CHR 0x22 then [CHR 0x5C, CHR 0x22]
      else if c = CHR 0x5C then [CHR 0x5C, CHR 0x5C]
      else if c = CHR 0x0A then [CHR 0x5C, CHR ''n'']
      else if c = CHR 0x0D then [CHR 0x5C, CHR ''r'']
      else if c = CHR 0x09 then [CHR 0x5C, CHR ''t'']
      else if c = CHR 0x0C then [CHR 0x5C, CHR ''f'']
      else if c = CHR 0x08 then [CHR 0x5C, CHR ''b'']
      else if 0x20 \<le> (of_char c :: nat) \<and> (of_char c :: nat) \<le> 0x7E then [c]
      else [CHR 0x5C, CHR ''u'', CHR ''0'', CHR ''0'',
            hex_digit ((of_char c :: nat) div 16), hex_digit ((of_char c :: nat) mod 16)])"

definition json_string :: "string \<Rightarrow> string" where
  "json_string s = CHR 0x22 # concat (map json_escape_char s) @ [CHR 0x22]"

text \<open>
  \<^verbatim>\<open>json.dumps(d, indent=2)\<close> for a dict of strings: \<^verbatim>\<open>{}\<close> when empty; otherwise one
  member per line, indented by two spaces, \<^verbatim>\<open>": "\<close> between key and value and a comma
  after every member but the last.
\<close>

definition json_dumps :: "(string \<times> string) list \<Rightarrow> string" where
  "json_dumps d =
     (if d = [] then ''{}''
      else ''{'' @ [CHR 0x0A] @ ''  ''
           @ join ('','' @ [CHR 0x0A] @ ''  '')
               (map (\<lambda>(k, v). json_string k @ '': '' @ json_string v) d)
           @ [CHR 0x0A] @ ''}'')"

subsection \<open>CSV output (lines 70-77)\<close>

text \<open>
  \<^verbatim>\<open>csv.writer\<close> with the default dialect: fields joined by commas, rows ended by
  \<^verbatim>\<open>\r\n\<close>; a field holding a comma, a quotation mark, \<^verbatim>\<open>\r\<close> or \<^verbatim>\<open>\n\<close> is put between
  quotation marks, with every quotation mark inside it doubled.
\<close>

definition csv_field :: "string \<Rightarrow> string" where
  "csv_field s =
     (if list_ex (\<lambda>c. c = CHR '','' \<or> c = CHR 0x22 \<or> c = CHR 0x0D \<or> c = CHR 0x0A) s
      then CHR 0x22 # concat (map (\<lambda>c. if c = CHR 0x22 then [CHR 0x22, CHR 0x22] else [c]) s)
           @ [CHR 0x22]
      else s)"

definition csv_row :: "string list \<Rightarrow> string" where
  "csv_row row = join '','' (map csv_field row) @ [CHR 0x0D, CHR 0x0A]"

text \<open>Lines 74-75: the header row, then one row per collected pair.\<close>

definition csv_text :: "(string \<times> string) list \<Rightarrow> string" where
  "csv_text results =
     csv_row [''URL'', ''Result''] @ concat (map (\<lambda>(url, result). csv_row [url, result]) results)"

subsection \<open>Printing and writing\<close>

definition py_print :: "string \<Rightarrow> world \<Rightarrow> world" where
  "py_print s wld = wld\<lparr>stdout := stdout wld @ [s]\<rparr>"

text \<open>
  \<^verbatim>\<open>with open(path, 'w') as f:\<close> followed by the writes of \<open>text\<close>: the file is created
  or truncated and then holds \<open>text\<close>; when it cannot be opened, \<^verbatim>\<open>OSError\<close> is raised
  and nothing is written.
\<close>

definition write_file :: "env \<Rightarrow> string \<Rightarrow> string \<Rightarrow> world \<Rightarrow> (exn + unit) \<times> world" where
  "write_file e path text wld =
     (if writable e path then (Inr (), wld\<lparr>files := (files wld)(path \<mapsto> text)\<rparr>)
      else (Inl (OSError path), wld))"

text \<open>
  Lines 63-68. \<^verbatim>\<open>if output_file:\<close> is false for \<^verbatim>\<open>None\<close> and for the empty string.
\<close>

definition emit_json ::
  "env \<Rightarrow> string option \<Rightarrow> (string \<times> string) list \<Rightarrow> world \<Rightarrow> (exn + unit) \<times> world" where
  "emit_json e output_file results wld =
     (let output = json_dumps (dict_comp results) in
      case output_file of
        None \<Rightarrow> (Inr (), py_print output wld)
      | Some path \<Rightarrow>
          if path \<noteq> [] then write_file e path output wld
          else (Inr (), py_print output wld))"

text \<open>Lines 71-77.\<close>

definition emit_csv ::
  "env \<Rightarrow> string option \<Rightarrow> (string \<times> string) list \<Rightarrow> world \<Rightarrow> (exn + unit) \<times> world" where
  "emit_csv e output_file results wld =
     (case output_file of
        None \<Rightarrow>
          (Inr (), py_print ''Cannot output CSV to stdout. Please specify an output file.'' wld)
      | Some path \<Rightarrow>
          if path \<noteq> [] then write_file e path (csv_text results) wld
          else (Inr (), py_print ''Cannot output CSV to stdout. Please specify an output file.'' wld))"

subsection \<open>\<^verbatim>\<open>main\<close> (lines 21-82)\<close>

text \<open>
  The value returned is \<open>Some results\<close> for the list and \<open>None\<close> for Python's
  \<^verbatim>\<open>None\<close>.
\<close>

definition main ::
  "env \<Rightarrow> string list \<Rightarrow> int \<Rightarrow> string option \<Rightarrow> bool \<Rightarrow> bool \<Rightarrow> bool \<Rightarrow> world
     \<Rightarrow> (exn + (string \<times> string) list option) \<times> world" where
  "main e urls max_workers output_file output_json output_csv return_list wld =
     (case fetch_all e max_workers urls wld of
        (Inl ex, w1) \<Rightarrow> (Inl ex, w1)
      | (Inr results, w1) \<Rightarrow>
          (case (if output_json then emit_json e output_file results w1 else (Inr (), w1)) of
             (Inl ex, w2) \<Rightarrow> (Inl ex, w2)
           | (Inr _, w2) \<Rightarrow>
               (case (if output_csv then emit_csv e output_file results w2 else (Inr (), w2)) of
                  (Inl ex, w3) \<Rightarrow> (Inl ex, w3)
                | (Inr _, w3) \<Rightarrow>
                    (Inr (if return_list then Some results else None), w3))))"

subsection \<open>The command-line script (lines 85-118)\<close>

text \<open>
  \<^verbatim>\<open>parse_args\<close> returns a namespace with one attribute per declared argument, named by
  its destination: \<^verbatim>\<open>input\<close>, \<^verbatim>\<open>output\<close>, \<^verbatim>\<open>json\<close>, \<^verbatim>\<open>csv\<close>, \<^verbatim>\<open>workers\<close> (lines
  106-110). \<open>cli_args\<close> holds what the user gave for each; reading an attribute the
  namespace does not have raises \<^verbatim>\<open>AttributeError\<close>.
\<close>

datatype pyval = PStr string | PInt int | PBool bool | PNone

record cli_args =
  arg_input :: string
  arg_output :: "string option"
  arg_json :: bool
  arg_csv :: bool
  arg_workers :: int

definition parse_args :: "cli_args \<Rightarrow> (string \<times> pyval) list" where
  "parse_args a =
     [(''input'', PStr (arg_input a)),
      (''output'', (case arg_output a of None \<Rightarrow> PNone | Some path \<Rightarrow> PStr path)),
      (''json'', PBool (arg_json a)),
      (''csv'', PBool (arg_csv a)),
      (''workers'', PInt (arg_workers a))]"

definition getattr :: "(string \<times> pyval) list \<Rightarrow> string \<Rightarrow> exn + pyval" where
  "getattr ns name = (case map_of ns name of None \<Rightarrow> Inl (AttributeError name) | Some v \<Rightarrow> Inr v)"

text \<open>
  \<^verbatim>\<open>line.strip()\<close> removes the white space of Python's \<^verbatim>\<open>str.isspace\<close> at both ends;
  below code point 256 that is 9-13, 28-32, 133 and 160.
\<close>

definition is_space :: "char \<Rightarrow> bool" where
  "is_space c =
     (let n = (of_char c :: nat) in (9 \<le> n \<and> n \<le> 13) \<or> (28 \<le> n \<and> n \<le> 32) \<or> n = 133 \<or> n = 160)"

definition strip :: "string \<Rightarrow> string" where
  "strip s = rev (dropWhile is_space (rev (dropWhile is_space s)))"

text \<open>
  The lines of a text file, whose contents are taken as Python's text mode delivers them
  (line ends already translated to \<^verbatim>\<open>\n\<close>). The line ends are dropped here (\<open>strip\<close>
  would remove them) and a last line that is empty is kept (line 116 filters it out).
\<close>

fun split_lines :: "string \<Rightarrow> string list" where
  "split_lines [] = [[]]"
| "split_lines (c # cs) =
     (if c = CHR 0x0A then [] # split_lines cs
      else (case split_lines cs of [] \<Rightarrow> [[c]] | l # ls \<Rightarrow> (c # l) # ls))"

text \<open>Lines 115-116: open the file named by \<^verbatim>\<open>args.input_file\<close> and read the URLs.\<close>

definition read_urls :: "(string \<times> pyval) list \<Rightarrow> world \<Rightarrow> exn + string list" where
  "read_urls args wld =
     (case getattr args ''input_file'' of
        Inl ex \<Rightarrow> Inl ex
      | Inr (PStr path) \<Rightarrow>
          (case files wld path of
             None \<Rightarrow> Inl (OSError path)
           | Some text \<Rightarrow> Inr (filter (\<lambda>l. l \<noteq> []) (map strip (split_lines text))))
      | Inr _ \<Rightarrow> Inl (TypeError ''expected str, bytes or os.PathLike object''))"

text \<open>
  Line 118: the arguments of the call of \<^verbatim>\<open>main\<close>, evaluated left to right:
  \<^verbatim>\<open>args.max_workers\<close>, \<^verbatim>\<open>args.output_file\<close>, \<^verbatim>\<open>args.json\<close>, \<^verbatim>\<open>args.csv\<close>.
\<close>

definition main_args :: "(string \<times> pyval) list \<Rightarrow> exn + (int \<times> string option \<times> bool \<times> bool)" where
  "main_args args =
     (case getattr args ''max_workers'' of
        Inl ex \<Rightarrow> Inl ex
      | Inr mw \<Rightarrow>
          (case getattr args ''output_file'' of
             Inl ex \<Rightarrow> Inl ex
           | Inr out \<Rightarrow>
               (case getattr args ''json'' of
                  Inl ex \<Rightarrow> Inl ex
                | Inr j \<Rightarrow>
                    (case getattr args ''csv'' of
                       Inl ex \<Rightarrow> Inl ex
                     | Inr c \<Rightarrow>
                         (case (mw, out, j, c) of
                            (PInt n, PStr path, PBool bj, PBool bc) \<Rightarrow> Inr (n, Some path, bj, bc)
                          | (PInt n, PNone, PBool bj, PBool bc) \<Rightarrow> Inr (n, None, bj, bc)
                          | _ \<Rightarrow> Inl (TypeError ''argument type''))))))"

text \<open>
  The script: print the banner (line 99; its text is the parameter \<open>banner\<close>), parse
  the arguments, read the URLs, call \<^verbatim>\<open>main\<close>.
\<close>

definition script :: "env \<Rightarrow> string \<Rightarrow> cli_args \<Rightarrow> world \<Rightarrow> (exn + unit) \<times> world" where
  "script e banner a wld =
     (let w0 = py_print banner wld; args = parse_args a in
      case read_urls args w0 of
        Inl ex \<Rightarrow> (Inl ex, w0)
      | Inr urls \<Rightarrow>
          (case main_args args of
             Inl ex \<Rightarrow> (Inl ex, w0)
           | Inr (mw, out, j, c) \<Rightarrow>
               (case main e urls mw out j c False w0 of
                  (Inl ex, w1) \<Rightarrow> (Inl ex, w1)
                | (Inr _, w1) \<Rightarrow> (Inr (), w1))))"

subsection \<open>Reading the JSON text back\<close>

text \<open>
  What a JSON text denotes is said by reading it, as Python's \<^verbatim>\<open>json.loads\<close> reads an object
  whose members are strings: white space between the tokens is skipped, the escapes
  \<^verbatim>\<open>\" \\ \/ \n \r \t \f \b\<close> and \<^verbatim>\<open>\u00xx\<close> are decoded, a raw control character inside a
  string is refused, and a key that comes again keeps its place and takes the new value.
  Any other text gives \<open>None\<close>. The reader serves only to state what the emitted text
  means; the program never calls it.
\<close>

definition json_ws :: "char \<Rightarrow> bool" where
  "json_ws c \<longleftrightarrow> c = CHR '' '' \<or> c = CHR 0x0A \<or> c = CHR 0x0D \<or> c = CHR 0x09"

definition unhex :: "char \<Rightarrow> nat option" where
  "unhex c =
     (let n = (of_char c :: nat) in
      if 48 \<le> n \<and> n \<le> 57 then Some (n - 48)
      else if 97 \<le> n \<and> n \<le> 102 then Some (n - 87)
      else if 65 \<le> n \<and> n \<le> 70 then Some (n - 55)
      else None)"

definition json_unescape_char :: "char \<Rightarrow> char option" where
  "json_unescape_char c =
     (if c = CHR 0x22 then Some (CHR 0x22)
      else if c = CHR 0x5C then Some (CHR 0x5C)
      else if c = CHR ''/'' then Some (CHR ''/'')
      else if c = CHR ''n'' then Some (CHR 0x0A)
      else if c = CHR ''r'' then Some (CHR 0x0D)
      else if c = CHR ''t'' then Some (CHR 0x09)
      else if c = CHR ''f'' then Some (CHR 0x0C)
      else if c = CHR ''b'' then Some (CHR 0x08)
      else None)"

definition json_unicode_escape :: "char \<Rightarrow> char \<Rightarrow> char \<Rightarrow> char \<Rightarrow> char option" where
  "json_unicode_escape h1 h2 h3 h4 =
     (case (unhex h1, unhex h2, unhex h3, unhex h4) of
        (Some a, Some b, Some c, Some d) \<Rightarrow>
          (if a = 0 \<and> b = 0 then Some (char_of (16 * c + d)) else None)
      | _ \<Rightarrow> None)"

text \<open>
  The characters of a string up to its closing quotation mark, decoded, and the text
  after that mark. The argument starts after the opening mark.
\<close>

fun json_read_string :: "string \<Rightarrow> (string \<times> string) option" where
  "json_read_string [] = None"
| "json_read_string (c # cs) =
     (if c = CHR 0x22 then Some ([], cs)
      else if c = CHR 0x5C then
        (case cs of
           [] \<Rightarrow> None
         | x # xs \<Rightarrow>
             if x = CHR ''u'' then
               (case xs of
                  h1 # h2 # h3 # h4 # rest \<Rightarrow>
                    (case json_unicode_escape h1 h2 h3 h4 of
                       None \<Rightarrow> None
                     | Some ch \<Rightarrow>
                         (case json_read_string rest of
                            None \<Rightarrow> None
                          | Some (s, r) \<Rightarrow> Some (ch # s, r)))
                | _ \<Rightarrow> None)
             else
               (case json_unescape_char x of
                  None \<Rightarrow> None
                | Some ch \<Rightarrow>
                    (case json_read_string xs of
                       None \<Rightarrow> None
                     | Some (s, r) \<Rightarrow> Some (ch # s, r))))
      else if (of_char c :: nat) < 0x20 then None
      else
        (case json_read_string cs of
           None \<Rightarrow> None
         | Some (s, r) \<Rightarrow> Some (c # s, r)))"

text \<open>
  The members of an object, from the first key to the closing brace, added to the
  mapping read so far. The first argument bounds the number of members read.
\<close>

fun json_read_members ::
  "nat \<Rightarrow> string \<Rightarrow> (string \<times> string) list \<Rightarrow> (string \<times> string) list option" where
  "json_read_members 0 s d = None"
| "json_read_members (Suc n) s d =
     (case dropWhile json_ws s of
        [] \<Rightarrow> None
      | q # s1 \<Rightarrow>
          if q \<noteq> CHR 0x22 then None
          else
            (case json_read_string s1 of
               None \<Rightarrow> None
             | Some (k, s2) \<Rightarrow>
                 (case dropWhile json_ws s2 of
                    [] \<Rightarrow> None
                  | c # s3 \<Rightarrow>
                      if c \<noteq> CHR '':'' then None
                      else
                        (case dropWhile json_ws s3 of
                           [] \<Rightarrow> None
                         | q' # s4 \<Rightarrow>
                             if q' \<noteq> CHR 0x22 then None
                             else
                               (case json_read_string s4 of
                                  None \<Rightarrow> None
                                | Some (v, s5) \<Rightarrow>
                                    (case dropWhile json_ws s5 of
                                       [] \<Rightarrow> None
                                     | c' # s6 \<Rightarrow>
                                         if c' = CHR '','' then
                                           json_read_members n s6 (AList.update k v d)
                                         else if c' = CHR ''}'' \<and> dropWhile json_ws s6 = [] then
                                           Some (AList.update k v d)
                                         else None))))))"

text \<open>One member of the emitted object, as \<open>json_dumps\<close> writes it.\<close>

definition json_member :: "string \<times> string \<Rightarrow> string" where
  "json_member m = (case m of (k, v) \<Rightarrow> json_string k @ '': '' @ json_string v)"

definition json_loads :: "string \<Rightarrow> (string \<times> string) list option" where
  "json_loads s =
     (case dropWhile json_ws s of
        [] \<Rightarrow> None
      | c # s1 \<Rightarrow>
          if c \<noteq> CHR ''{'' then None
          else
            (case dropWhile json_ws s1 of
               [] \<Rightarrow> None
             | c1 # s2 \<Rightarrow>
                 if c1 = CHR ''}'' then (if dropWhile json_ws s2 = [] then Some [] else None)
                 else json_read_members (length s) (c1 # s2) []))"

subsection \<open>A concrete run\<close>

text \<open>
  Three URLs, the second of which cannot be reached and the third repeating the first;
  two workers; one output path that can be opened for writing.
\<close>

definition example_urls :: "string list" where
  "example_urls = [''http://a'', ''http://bad.test'', ''http://a'']"

definition example_env :: env where
  "example_env =
     \<lparr>net = (\<lambda>i url.
          if url = ''http://bad.test'' then Raises (RequestException ''connection refused'')
          else if i = 0 then Response 200 ''first''
          else Response 404 ''second''),
      sched = [Begin, Begin, Complete 1, Begin],
      writable = (\<lambda>path. path = ''out.json'')\<rparr>"

definition example_world :: world where
  "example_world = \<lparr>requested = [], stdout = [], files = Map.empty\<rparr>"

text \<open>The pool of that run once the first two tasks have begun.\<close>

definition example_pool :: pool where
  "example_pool =
     \<lparr>queue = [(Suc (Suc 0), ''http://a'')],
      running = [(0, ''http://a''), (Suc 0, ''http://bad.test'')],
      started = [(0, ''http://a''), (Suc 0, ''http://bad.test'')],
      finished = []\<rparr>"

section \<open>Properties\<close>

subsection \<open>The pool: what every state of a run satisfies\<close>

lemma pool_inv_submit_all: "pool_inv w (enumerate 0 urls) (submit_all urls)"
proof -
  have "queue (submit_all urls) = drop 0 (enumerate 0 urls) \<and>
        started (submit_all urls) = take 0 (enumerate 0 urls)"
    by (simp add: submit_all_def)
  then have "\<exists>k. queue (submit_all urls) = drop k (enumerate 0 urls) \<and>
        started (submit_all urls) = take k (enumerate 0 urls)" by (rule exI)
  then show ?thesis
    unfolding pool_inv_def by (simp add: submit_all_def)
qed

lemma drop_eq_Cons_step:
  assumes "drop k ts = t # q"
  shows "drop (Suc k) ts = q \<and> take (Suc k) ts = take k ts @ [t]"
proof -
  from assms have k: "k < length ts" by (cases "k < length ts") auto
  from k have "drop k ts = ts ! k # drop (Suc k) ts" by (simp add: Cons_nth_drop_Suc)
  with assms have "t = ts ! k" "q = drop (Suc k) ts" by simp_all
  with k show ?thesis by (simp add: take_Suc_conv_app_nth)
qed

lemma mset_remove_nth:
  assumes "i < length r"
  shows "mset (take i r @ drop (Suc i) r) + {#r ! i#} = mset r"
proof -
  from assms have "r = take i r @ r ! i # drop (Suc i) r" by (rule id_take_nth_drop)
  then have "mset r = mset (take i r @ r ! i # drop (Suc i) r)" by simp
  then show ?thesis by simp
qed

lemma pool_event_Begin_free:
  assumes "queue p = t # q" and "length (running p) < w"
  shows "pool_event w Begin p = p\<lparr>queue := q, running := running p @ [t], started := started p @ [t]\<rparr>"
  using assms by simp

lemma pool_event_Begin_idle:
  assumes "queue p = [] \<or> \<not> length (running p) < w"
  shows "pool_event w Begin p = p"
  using assms by (cases "queue p") auto

lemma pool_event_Complete_running:
  assumes "i < length (running p)"
  shows "pool_event w (Complete i) p =
           p\<lparr>running := take i (running p) @ drop (Suc i) (running p),
             finished := finished p @ [running p ! i]\<rparr>"
  using assms by simp

lemma pool_event_Complete_idle:
  assumes "\<not> i < length (running p)"
  shows "pool_event w (Complete i) p = p"
  using assms by simp

lemma pool_inv_Begin:
  assumes "pool_inv w ts p"
  shows "pool_inv w ts (pool_event w Begin p)"
proof (cases "queue p = [] \<or> \<not> length (running p) < w")
  case True
  then show ?thesis using assms by (simp only: pool_event_Begin_idle)
next
  case False
  then obtain t q where tq: "queue p = t # q" and free: "length (running p) < w"
    by (cases "queue p") auto
  from assms obtain k where k: "queue p = drop k ts" "started p = take k ts"
    and bal: "mset (running p) + mset (finished p) = mset (started p)"
    unfolding pool_inv_def by blast
  from k tq have "drop k ts = t # q" by simp
  then have step: "drop (Suc k) ts = q \<and> take (Suc k) ts = take k ts @ [t]"
    by (rule drop_eq_Cons_step)
  let ?p' = "p\<lparr>queue := q, running := running p @ [t], started := started p @ [t]\<rparr>"
  have a: "length (running ?p') \<le> w" using free by simp
  have "queue ?p' = drop (Suc k) ts \<and> started ?p' = take (Suc k) ts"
    using step k by simp
  then have b: "\<exists>k'. queue ?p' = drop k' ts \<and> started ?p' = take k' ts" by (rule exI)
  have c: "mset (running ?p') + mset (finished ?p') = mset (started ?p')"
    using bal by simp
  from a b c have "pool_inv w ts ?p'" unfolding pool_inv_def by blast
  then show ?thesis by (simp only: pool_event_Begin_free [OF tq free])
qed

lemma pool_inv_Complete:
  assumes "pool_inv w ts p"
  shows "pool_inv w ts (pool_event w (Complete i) p)"
proof (cases "i < length (running p)")
  case False
  then show ?thesis using assms by simp
next
  case True
  from assms obtain k where k: "queue p = drop k ts" "started p = take k ts"
    and bal: "mset (running p) + mset (finished p) = mset (started p)"
    and bound: "length (running p) \<le> w"
    unfolding pool_inv_def by blast
  let ?r = "take i (running p) @ drop (Suc i) (running p)"
  let ?p' = "p\<lparr>running := ?r, finished := finished p @ [running p ! i]\<rparr>"
  have a: "length (running ?p') \<le> w" using bound by simp
  have "queue ?p' = drop k ts \<and> started ?p' = take k ts" using k by simp
  then have b: "\<exists>k'. queue ?p' = drop k' ts \<and> started ?p' = take k' ts" by (rule exI)
  have "mset ?r + mset (finished p @ [running p ! i])
          = (mset ?r + {#running p ! i#}) + mset (finished p)" by simp
  also have "\<dots> = mset (running p) + mset (finished p)"
    by (simp only: mset_remove_nth [OF True])
  finally have c: "mset (running ?p') + mset (finished ?p') = mset (started ?p')"
    using bal by simp
  from a b c have "pool_inv w ts ?p'" unfolding pool_inv_def by blast
  then show ?thesis by (simp only: pool_event_Complete_running [OF True])
qed

lemma pool_inv_event:
  "pool_inv w ts p \<Longrightarrow> pool_inv w ts (pool_event w e p)"
  by (cases e) (simp_all only: pool_inv_Begin pool_inv_Complete)

lemma drain_trace_Begin:
  "queue p \<noteq> [] \<and> length (running p) < w \<Longrightarrow>
   drain_trace w p = p # drain_trace w (pool_event w Begin p)"
  by (subst drain_trace.simps) simp

lemma drain_trace_Complete:
  "\<not> (queue p \<noteq> [] \<and> length (running p) < w) \<Longrightarrow> running p \<noteq> [] \<Longrightarrow>
   drain_trace w p = p # drain_trace w (pool_event w (Complete 0) p)"
  by (subst drain_trace.simps) (auto simp del: pool_event.simps)

lemma drain_trace_idle:
  "\<not> (queue p \<noteq> [] \<and> length (running p) < w) \<Longrightarrow> \<not> running p \<noteq> [] \<Longrightarrow>
   drain_trace w p = [p]"
  by (subst drain_trace.simps) (auto simp del: pool_event.simps)

lemma pool_inv_drain_trace:
  "pool_inv w ts p \<Longrightarrow> q \<in> set (drain_trace w p) \<Longrightarrow> pool_inv w ts q"
proof (induction w p rule: drain_trace.induct)
  case (1 w p)
  show ?case
  proof (cases "queue p \<noteq> [] \<and> length (running p) < w")
    case True
    from "1.prems"(2) have "q = p \<or> q \<in> set (drain_trace w (pool_event w Begin p))"
      by (simp only: drain_trace_Begin [OF True] set_simps insert_iff)
    with "1.IH"(1) [OF True pool_inv_event [OF "1.prems"(1)]] "1.prems"(1) show ?thesis by blast
  next
    case False
    show ?thesis
    proof (cases "running p \<noteq> []")
      case True
      from "1.prems"(2) have "q = p \<or> q \<in> set (drain_trace w (pool_event w (Complete 0) p))"
        by (simp only: drain_trace_Complete [OF False True] set_simps insert_iff)
      with "1.IH"(2) [OF False True pool_inv_event [OF "1.prems"(1)]] "1.prems"(1)
      show ?thesis by blast
    next
      case F2: False
      from "1.prems"(2) have "q = p"
        by (simp only: drain_trace_idle [OF False F2] set_simps insert_iff empty_iff simp_thms)
      with "1.prems" show ?thesis by simp
    qed
  qed
qed

lemma pool_inv_pool_trace:
  "pool_inv w ts p \<Longrightarrow> q \<in> set (pool_trace w evs p) \<Longrightarrow> pool_inv w ts q"
proof (induction evs arbitrary: p)
  case Nil
  then show ?case by (simp add: pool_inv_drain_trace)
next
  case (Cons e es)
  from Cons.prems(2) have "q = p \<or> q \<in> set (pool_trace w es (pool_event w e p))"
    by (simp only: pool_trace.simps set_simps insert_iff)
  then show ?case
  proof
    assume "q = p" with Cons.prems(1) show ?thesis by simp
  next
    assume "q \<in> set (pool_trace w es (pool_event w e p))"
    with Cons.IH [OF pool_inv_event [OF Cons.prems(1)]] show ?thesis .
  qed
qed

lemma drain_trace_not_Nil: "drain_trace w p \<noteq> []"
  by (subst drain_trace.simps) simp

lemma pool_trace_not_Nil: "pool_trace w evs p \<noteq> []"
  by (cases evs) (simp_all only: pool_trace.simps drain_trace_not_Nil list.distinct not_False_eq_True)

lemma drain_trace_last_idle:
  "0 < w \<Longrightarrow> queue (last (drain_trace w p)) = [] \<and> running (last (drain_trace w p)) = []"
proof (induction w p rule: drain_trace.induct)
  case (1 w p)
  show ?case
  proof (cases "queue p \<noteq> [] \<and> length (running p) < w")
    case True
    have "last (drain_trace w p) = last (drain_trace w (pool_event w Begin p))"
      by (simp only: drain_trace_Begin [OF True] last_ConsR [OF drain_trace_not_Nil])
    with "1.IH"(1) [OF True "1.prems"] show ?thesis by simp
  next
    case False
    show ?thesis
    proof (cases "running p \<noteq> []")
      case True
      have "last (drain_trace w p) = last (drain_trace w (pool_event w (Complete 0) p))"
        by (simp only: drain_trace_Complete [OF False True] last_ConsR [OF drain_trace_not_Nil])
      with "1.IH"(2) [OF False True "1.prems"] show ?thesis by simp
    next
      case F2: False
      have "last (drain_trace w p) = p"
        by (simp add: drain_trace_idle [OF False F2])
      with F2 False "1.prems" show ?thesis by auto
    qed
  qed
qed

lemma pool_trace_last_idle:
  "0 < w \<Longrightarrow> queue (last (pool_trace w evs p)) = [] \<and> running (last (pool_trace w evs p)) = []"
proof (induction evs arbitrary: p)
  case Nil
  then show ?case by (simp only: pool_trace.simps drain_trace_last_idle)
next
  case (Cons e es)
  have "last (pool_trace w (e # es) p) = last (pool_trace w es (pool_event w e p))"
    by (simp only: pool_trace.simps last_ConsR [OF pool_trace_not_Nil])
  with Cons.IH [OF Cons.prems] show ?case by simp
qed

subsection \<open>The fetch loop\<close>

lemma pool_trace_last_in_set: "last (pool_trace w evs p) \<in> set (pool_trace w evs p)"
  by (rule last_in_set) (rule pool_trace_not_Nil)

lemma pool_trace_last_all_finished:
  assumes "0 < w"
  shows "started (last (pool_trace w evs (submit_all urls))) = enumerate 0 urls \<and>
         mset (finished (last (pool_trace w evs (submit_all urls)))) = mset (enumerate 0 urls)"
proof -
  let ?p = "last (pool_trace w evs (submit_all urls))"
  have inv: "pool_inv w (enumerate 0 urls) ?p"
    using pool_inv_submit_all pool_trace_last_in_set by (rule pool_inv_pool_trace)
  from pool_trace_last_idle [OF assms] have idle: "queue ?p = []" "running ?p = []"
    by blast+
  from inv obtain k where k: "queue ?p = drop k (enumerate 0 urls)"
      "started ?p = take k (enumerate 0 urls)"
    and bal: "mset (running ?p) + mset (finished ?p) = mset (started ?p)"
    unfolding pool_inv_def by blast
  from k(1) idle(1) have "length (enumerate 0 urls) \<le> k" by simp
  with k(2) have st: "started ?p = enumerate 0 urls" by simp
  from bal idle(2) st have "mset (finished ?p) = mset (enumerate 0 urls)" by simp
  with st show ?thesis by blast
qed

lemma fetch_all_run:
  assumes "0 < max_workers"
  shows "\<exists>fin. mset fin = mset (enumerate 0 urls) \<and>
           fetch_all e max_workers urls wld =
             (Inr (map (collect e) fin), wld\<lparr>requested := requested wld @ urls\<rparr>)"
proof -
  let ?p = "last (pool_trace (nat max_workers) (sched e) (submit_all urls))"
  from assms have w: "0 < nat max_workers" by simp
  from pool_trace_last_all_finished [OF w]
  have st: "started ?p = enumerate 0 urls" and fin: "mset (finished ?p) = mset (enumerate 0 urls)"
    by blast+
  from assms have "fetch_all e max_workers urls wld =
      (Inr (map (collect e) (finished ?p)), wld\<lparr>requested := requested wld @ map snd (started ?p)\<rparr>)"
    by (simp add: fetch_all_def Let_def)
  with st have "fetch_all e max_workers urls wld =
      (Inr (map (collect e) (finished ?p)), wld\<lparr>requested := requested wld @ urls\<rparr>)"
    by (simp add: map_snd_enumerate)
  with fin show ?thesis by blast
qed

lemma fst_collect: "fst (collect e t) = snd t"
  by (cases t) (simp add: collect_def split: sum.splits)

lemma mset_map_fst_collect:
  assumes "mset fin = mset (enumerate 0 urls)"
  shows "mset (map fst (map (collect e) fin)) = mset urls"
proof -
  have "map fst (map (collect e) fin) = map snd fin"
    by (induction fin) (simp_all add: fst_collect)
  then have "mset (map fst (map (collect e) fin)) = mset (map snd fin)" by (rule arg_cong)
  also have "\<dots> = image_mset snd (mset fin)" by (rule mset_map)
  also have "\<dots> = image_mset snd (mset (enumerate 0 urls))" using assms by simp
  also have "\<dots> = mset (map snd (enumerate 0 urls))" by (rule mset_map [symmetric])
  also have "\<dots> = mset urls" by (simp only: map_snd_enumerate)
  finally show ?thesis .
qed

lemma fetch_all_Nil: "0 < max_workers \<Longrightarrow> fetch_all e max_workers [] wld = (Inr [], wld)"
proof -
  assume a: "0 < max_workers"
  from fetch_all_run [OF a, of "[]" e wld] obtain fin where
    "mset fin = mset (enumerate 0 ([]::string list))"
    "fetch_all e max_workers [] wld = (Inr (map (collect e) fin), wld\<lparr>requested := requested wld @ []\<rparr>)"
    by blast
  then show ?thesis by simp
qed

lemma pool_trace_Nil_nothing_started:
  "list_all (\<lambda>p. started p = [] \<and> running p = []) (pool_trace w evs (submit_all []))"
proof -
  have "\<And>p. p \<in> set (pool_trace w evs (submit_all [])) \<Longrightarrow> started p = [] \<and> running p = []"
  proof -
    fix p assume "p \<in> set (pool_trace w evs (submit_all []))"
    with pool_inv_submit_all [of w "[]"] have "pool_inv w (enumerate 0 []) p"
      by (rule pool_inv_pool_trace)
    then show "started p = [] \<and> running p = []" unfolding pool_inv_def by auto
  qed
  then show ?thesis by (simp add: list_all_iff)
qed

lemma fetch_url_RequestException:
  "get url = Raises (RequestException cause) \<Longrightarrow> fetch_url get url = Inr (''Error: '' @ cause)"
  by (simp add: fetch_url_def)

lemma in_set_enumerate_nth: "i < length urls \<Longrightarrow> (i, urls ! i) \<in> set (enumerate 0 urls)"
  by (simp add: in_set_enumerate_eq)

subsection \<open>The dict comprehension\<close>

lemma map_of_foldl_update:
  "map_of (foldl (\<lambda>d (k, v). AList.update k v d) d rs) = map_of d ++ map_of (rev rs)"
proof (induction rs arbitrary: d)
  case Nil
  show ?case by simp
next
  case (Cons r rs)
  obtain k v where r: "r = (k, v)" by (cases r)
  have "map_of (foldl (\<lambda>d (k, v). AList.update k v d) d (r # rs))
          = map_of (AList.update k v d) ++ map_of (rev rs)"
    using Cons.IH [of "AList.update k v d"] r by simp
  also have "\<dots> = (map_of d)(k \<mapsto> v) ++ map_of (rev rs)"
    by (simp only: update_conv')
  also have "\<dots> = map_of d ++ map_of (rev (r # rs))"
    using r by (simp add: map_add_upd_left [symmetric] del: map_add_upd_left)
  finally show ?case .
qed

lemma distinct_foldl_update:
  "distinct (map fst d) \<Longrightarrow> distinct (map fst (foldl (\<lambda>d (k, v). AList.update k v d) d rs))"
proof (induction rs arbitrary: d)
  case Nil
  then show ?case by simp
next
  case (Cons r rs)
  obtain k v where r: "r = (k, v)" by (cases r)
  from Cons.prems have "distinct (map fst (AList.update k v d))" by (rule distinct_update)
  from Cons.IH [OF this] r show ?case by simp
qed

lemma keys_foldl_update:
  "set (map fst (foldl (\<lambda>d (k, v). AList.update k v d) d rs)) = fst ` set d \<union> fst ` set rs"
proof (induction rs arbitrary: d)
  case Nil
  show ?case by simp
next
  case (Cons r rs)
  obtain k v where r: "r = (k, v)" by (cases r)
  have "fst ` set (AList.update k v d) = insert k (fst ` set d)"
    using dom_update [of k v d] by (simp add: dom_map_of_conv_image_fst)
  with Cons.IH [of "AList.update k v d"] r show ?case by auto
qed

subsection \<open>The JSON text read back is the mapping written\<close>

lemma unhex_hex_digit: "k < 16 \<Longrightarrow> unhex (hex_digit k) = Some k"
proof -
  assume "k < 16"
  then have "k \<in> {0, 1, 2, 3, 4, 5, 6, 7, 8, 9, 10, 11, 12, 13, 14, 15}" by (simp; arith)
  then show ?thesis
    by (elim insertE emptyE) (simp_all add: unhex_def hex_digit_def)
qed

lemma json_unicode_escape_hex:
  "json_unicode_escape (CHR ''0'') (CHR ''0'')
     (hex_digit ((of_char c :: nat) div 16)) (hex_digit ((of_char c :: nat) mod 16)) = Some c"
proof -
  let ?n = "of_char c :: nat"
  have lt: "?n < 256" by (rule nat_of_char_less_256)
  then have hi: "?n div 16 < 16" by arith
  have lo: "?n mod 16 < 16" by simp
  have z: "unhex (CHR ''0'') = Some 0" by (simp add: unhex_def)
  have "char_of (16 * (?n div 16) + ?n mod 16) = char_of ?n" by simp
  then have "char_of (16 * (?n div 16) + ?n mod 16) = c" by (simp only: char_of_char)
  then show ?thesis
    by (simp only: json_unicode_escape_def z unhex_hex_digit [OF hi] unhex_hex_digit [OF lo]
          prod.case option.case simp_thms if_True)
qed

lemma json_read_string_escaped:
  "json_read_string (json_escape_char c @ t) =
     (case json_read_string t of None \<Rightarrow> None | Some (s, r) \<Rightarrow> Some (c # s, r))"
proof -
  consider (special) "c \<in> {CHR 0x22, CHR 0x5C, CHR 0x0A, CHR 0x0D, CHR 0x09, CHR 0x0C, CHR 0x08}"
    | (plain) "c \<notin> {CHR 0x22, CHR 0x5C, CHR 0x0A, CHR 0x0D, CHR 0x09, CHR 0x0C, CHR 0x08}"
        "0x20 \<le> (of_char c :: nat) \<and> (of_char c :: nat) \<le> 0x7E"
    | (unicode) "c \<notin> {CHR 0x22, CHR 0x5C, CHR 0x0A, CHR 0x0D, CHR 0x09, CHR 0x0C, CHR 0x08}"
        "\<not> (0x20 \<le> (of_char c :: nat) \<and> (of_char c :: nat) \<le> 0x7E)"
    by blast
  then show ?thesis
  proof cases
    case special
    then show ?thesis
      by (elim insertE emptyE)
         (auto simp: json_escape_char_def json_unescape_char_def split: option.splits)
  next
    case plain
    then have "json_escape_char c = [c]" by (simp add: json_escape_char_def)
    moreover from plain have "c \<noteq> CHR 0x22" "c \<noteq> CHR 0x5C" "\<not> (of_char c :: nat) < 0x20"
      by simp_all
    ultimately show ?thesis by simp
  next
    case unicode
    then have "json_escape_char c =
        [CHR 0x5C, CHR ''u'', CHR ''0'', CHR ''0'',
         hex_digit ((of_char c :: nat) div 16), hex_digit ((of_char c :: nat) mod 16)]"
      by (simp add: json_escape_char_def)
    then show ?thesis by (simp add: json_unicode_escape_hex)
  qed
qed

lemma json_read_string_body:
  "json_read_string (concat (map json_escape_char s) @ CHR 0x22 # rest) = Some (s, rest)"
  by (induction s) (simp_all add: json_read_string_escaped)

lemma json_read_string_json_string:
  "json_string s @ rest = CHR 0x22 # t \<Longrightarrow> json_read_string t = Some (s, rest)"
  by (auto simp: json_string_def json_read_string_body)

lemma json_string_Cons: "json_string s = CHR 0x22 # concat (map json_escape_char s) @ [CHR 0x22]"
  by (simp add: json_string_def)

lemma json_read_members_member:
  "json_read_members (Suc n) (json_string k @ '': '' @ json_string v @ s5) acc =
     (case dropWhile json_ws s5 of
        [] \<Rightarrow> None
      | c' # s6 \<Rightarrow>
          if c' = CHR '','' then json_read_members n s6 (AList.update k v acc)
          else if c' = CHR ''}'' \<and> dropWhile json_ws s6 = [] then Some (AList.update k v acc)
          else None)"
proof -
  let ?rest = "'': '' @ json_string v @ s5"
  have a: "dropWhile json_ws (json_string k @ ?rest) =
             CHR 0x22 # concat (map json_escape_char k) @ CHR 0x22 # ?rest"
    by (simp add: json_string_Cons json_ws_def)
  have b: "json_read_string (concat (map json_escape_char k) @ CHR 0x22 # ?rest) = Some (k, ?rest)"
    by (rule json_read_string_body)
  have c: "dropWhile json_ws ?rest = CHR '':'' # CHR '' '' # json_string v @ s5"
    by (simp add: json_ws_def)
  have d: "dropWhile json_ws (CHR '' '' # json_string v @ s5) =
             CHR 0x22 # concat (map json_escape_char v) @ CHR 0x22 # s5"
    by (simp add: json_string_Cons json_ws_def)
  have e: "json_read_string (concat (map json_escape_char v) @ CHR 0x22 # s5) = Some (v, s5)"
    by (rule json_read_string_body)
  show ?thesis
    by (simp only: json_read_members.simps a b c d e list.case option.case prod.case
          simp_thms if_False)
qed

lemma json_read_members_skip:
  "json_read_members n (CHR 0x0A # CHR '' '' # CHR '' '' # s) acc = json_read_members n s acc"
  by (cases n) (simp_all add: json_ws_def)

lemma json_read_members_join:
  "length ms < n \<Longrightarrow>
   json_read_members n
     (join ('','' @ [CHR 0x0A] @ ''  '') (map json_member (m # ms)) @ [CHR 0x0A] @ ''}'') acc =
   Some (foldl (\<lambda>d (k, v). AList.update k v d) acc (m # ms))"
proof (induction ms arbitrary: m acc n)
  case Nil
  obtain k v where m: "m = (k, v)" by (cases m)
  from Nil obtain n' where n: "n = Suc n'" by (cases n) auto
  have "json_read_members (Suc n') (json_string k @ '': '' @ json_string v @ [CHR 0x0A] @ ''}'') acc
          = Some (AList.update k v acc)"
    by (simp only: json_read_members_member) (simp add: json_ws_def)
  then show ?case by (simp add: m n json_member_def)
next
  case (Cons m' ms)
  obtain k v where m: "m = (k, v)" by (cases m)
  from Cons.prems obtain n' where n: "n = Suc n'" and n': "length ms < n'" by (cases n) auto
  let ?tail = "join ('','' @ [CHR 0x0A] @ ''  '') (map json_member (m' # ms)) @ [CHR 0x0A] @ ''}''"
  have text_eq: "join ('','' @ [CHR 0x0A] @ ''  '') (map json_member (m # m' # ms)) @ [CHR 0x0A] @ ''}''
               = json_string k @ '': '' @ json_string v
                 @ (CHR '','' # CHR 0x0A # CHR '' '' # CHR '' '' # ?tail)"
    by (simp add: m json_member_def)
  have "json_read_members (Suc n')
          (json_string k @ '': '' @ json_string v @ (CHR '','' # CHR 0x0A # CHR '' '' # CHR '' '' # ?tail)) acc
        = json_read_members n' (CHR 0x0A # CHR '' '' # CHR '' '' # ?tail) (AList.update k v acc)"
    by (simp only: json_read_members_member) (simp add: json_ws_def)
  also have "\<dots> = json_read_members n' ?tail (AList.update k v acc)"
    by (rule json_read_members_skip)
  also have "\<dots> = Some (foldl (\<lambda>d (k, v). AList.update k v d) (AList.update k v acc) (m' # ms))"
    by (rule Cons.IH [OF n'])
  finally show ?case by (simp only: text_eq n) (simp add: m)
qed

lemma length_join_ge:
  "\<forall>x \<in> set xs. x \<noteq> [] \<Longrightarrow> length xs \<le> length (join sep xs)"
proof (induction sep xs rule: join.induct)
  case (1 sep)
  show ?case by simp
next
  case (2 sep x)
  then have "x \<noteq> []" by simp
  then show ?case by (cases x) simp_all
next
  case (3 sep x y ys)
  then have "x \<noteq> []" and "length (y # ys) \<le> length (join sep (y # ys))" by simp_all
  then show ?case by (cases x) simp_all
qed

lemma json_member_not_Nil: "json_member m \<noteq> []"
  by (cases m) (simp add: json_member_def json_string_def)

lemma update_fresh: "k \<notin> fst ` set acc \<Longrightarrow> AList.update k v acc = acc @ [(k, v)]"
  by (induction acc) auto

lemma foldl_update_distinct:
  "distinct (map fst (acc @ d)) \<Longrightarrow> foldl (\<lambda>d (k, v). AList.update k v d) acc d = acc @ d"
proof (induction d arbitrary: acc)
  case Nil
  show ?case by simp
next
  case (Cons m d)
  obtain k v where m: "m = (k, v)" by (cases m)
  from Cons.prems m have fresh: "k \<notin> fst ` set acc" by auto
  from Cons.prems m have "distinct (map fst ((acc @ [(k, v)]) @ d))" by simp
  from Cons.IH [OF this] show ?case by (simp add: m update_fresh [OF fresh])
qed

lemma json_dumps_Cons:
  "json_dumps (m # ms) =
     CHR ''{'' # CHR 0x0A # CHR '' '' # CHR '' '' #
       (join ('','' @ [CHR 0x0A] @ ''  '') (map json_member (m # ms)) @ [CHR 0x0A] @ ''}'')"
proof -
  have "(\<lambda>(k, v). json_string k @ '': '' @ json_string v) = json_member"
    by (rule ext) (simp add: json_member_def)
  then show ?thesis by (simp add: json_dumps_def)
qed

lemma join_members_quote:
  "\<exists>t. join sep (map json_member (m # ms)) = CHR 0x22 # t"
proof -
  obtain k v where m: "m = (k, v)" by (cases m)
  show ?thesis by (cases ms) (simp_all add: m json_member_def json_string_def)
qed

lemma json_loads_object:
  "s = CHR ''{'' # CHR 0x0A # CHR '' '' # CHR '' '' # CHR 0x22 # t \<Longrightarrow>
   json_loads s = json_read_members (length s) (CHR 0x22 # t) []"
  by (simp add: json_loads_def json_ws_def del: json_read_members.simps)

lemma json_loads_json_dumps:
  assumes "distinct (map fst d)"
  shows "json_loads (json_dumps d) = Some d"
proof (cases d)
  case Nil
  then show ?thesis by (simp add: json_loads_def json_dumps_def json_ws_def)
next
  case (Cons m ms)
  let ?sep = "'','' @ [CHR 0x0A] @ ''  ''"
  let ?body = "join ?sep (map json_member (m # ms)) @ [CHR 0x0A] @ ''}''"
  from join_members_quote [of ?sep m ms] obtain t where
    t: "join ?sep (map json_member (m # ms)) = CHR 0x22 # t" by blast
  have body: "?body = CHR 0x22 # (t @ [CHR 0x0A] @ ''}'')"
    unfolding t by simp
  have dumps: "json_dumps (m # ms) =
      CHR ''{'' # CHR 0x0A # CHR '' '' # CHR '' '' # CHR 0x22 # (t @ [CHR 0x0A] @ ''}'')"
    unfolding json_dumps_Cons t by simp
  have "\<forall>x \<in> set (map json_member (m # ms)). x \<noteq> []"
    by (auto simp: json_member_not_Nil)
  then have "length (map json_member (m # ms)) \<le> length (join ?sep (map json_member (m # ms)))"
    by (rule length_join_ge)
  then have fuel: "length ms < length (json_dumps (m # ms))"
    unfolding json_dumps_Cons by simp
  have "json_loads (json_dumps (m # ms)) =
          json_read_members (length (json_dumps (m # ms))) (CHR 0x22 # (t @ [CHR 0x0A] @ ''}'')) []"
    using dumps by (rule json_loads_object)
  also have "\<dots> = json_read_members (length (json_dumps (m # ms))) ?body []"
    by (simp only: body)
  also have "\<dots> = Some (foldl (\<lambda>d (k, v). AList.update k v d) [] (m # ms))"
    using fuel by (rule json_read_members_join)
  also have "\<dots> = Some (m # ms)"
    using assms Cons foldl_update_distinct [of "[]" "m # ms"] by simp
  finally show ?thesis using Cons by simp
qed

subsection \<open>Emission and the return value\<close>

lemma emit_json_ok:
  assumes "\<And>path. output_file = Some path \<Longrightarrow> path \<noteq> [] \<Longrightarrow> writable e path"
  shows "\<exists>w'. emit_json e output_file results wld = (Inr (), w')"
proof (cases output_file)
  case None
  then show ?thesis by (simp add: emit_json_def)
next
  case (Some path)
  show ?thesis
  proof (cases "path = []")
    case True
    with Some show ?thesis by (simp add: emit_json_def)
  next
    case False
    with Some assms have "writable e path" by blast
    with Some False show ?thesis by (simp add: emit_json_def write_file_def)
  qed
qed

lemma emit_csv_ok:
  assumes "\<And>path. output_file = Some path \<Longrightarrow> path \<noteq> [] \<Longrightarrow> writable e path"
  shows "\<exists>w'. emit_csv e output_file results wld = (Inr (), w')"
proof (cases output_file)
  case None
  then show ?thesis by (simp add: emit_csv_def)
next
  case (Some path)
  show ?thesis
  proof (cases "path = []")
    case True
    with Some show ?thesis by (simp add: emit_csv_def)
  next
    case False
    with Some assms have "writable e path" by blast
    with Some False show ?thesis by (simp add: emit_csv_def write_file_def)
  qed
qed

lemma main_after_fetch:
  assumes "fetch_all e max_workers urls wld = (Inr results, w1)"
    and "(if output_json then emit_json e output_file results w1 else (Inr (), w1)) = (Inr (), w2)"
    and "(if output_csv then emit_csv e output_file results w2 else (Inr (), w2)) = (Inr (), w3)"
  shows "main e urls max_workers output_file output_json output_csv return_list wld =
           (Inr (if return_list then Some results else None), w3)"
  unfolding main_def by (simp only: assms prod.case sum.case)

section \<open>Claims\<close>

text \<open>
  C1. For every list of URLs and every \<open>max_workers \<ge> 1\<close> the fetch loop returns (it does
  not raise) a list with exactly one pair per submitted URL: the list is as long as the
  input, its URLs are the input's URLs with their multiplicities, and it is a permutation
  of the per-task outcomes; each URL is requested once. For the empty list the result is
  empty, the world is unchanged and no state of the pool has a task begun or running.
\<close>

theorem one_result_per_url:
  assumes "1 \<le> max_workers"
  shows "(\<exists>results wld'. fetch_all e max_workers urls wld = (Inr results, wld') \<and>
            length results = length urls \<and>
            mset (map fst results) = mset urls \<and>
            mset results = mset (map (collect e) (enumerate 0 urls)) \<and>
            requested wld' = requested wld @ urls) \<and>
         fetch_all e max_workers [] wld = (Inr [], wld) \<and>
         list_all (\<lambda>p. started p = [] \<and> running p = [])
           (pool_trace (nat max_workers) (sched e) (submit_all []))"
proof -
  from assms have pos: "0 < max_workers" by simp
  from fetch_all_run [OF pos, of urls e wld] obtain fin where
    fin: "mset fin = mset (enumerate 0 urls)" and
    run: "fetch_all e max_workers urls wld =
           (Inr (map (collect e) fin), wld\<lparr>requested := requested wld @ urls\<rparr>)"
    by blast
  from fin have "size (mset fin) = size (mset (enumerate 0 urls))" by simp
  then have len: "length (map (collect e) fin) = length urls" by simp
  have keys: "mset (map fst (map (collect e) fin)) = mset urls"
    using fin by (rule mset_map_fst_collect)
  have "mset (map (collect e) fin) = image_mset (collect e) (mset fin)" by simp
  with fin have perm: "mset (map (collect e) fin) = mset (map (collect e) (enumerate 0 urls))"
    by simp
  have req: "requested (wld\<lparr>requested := requested wld @ urls\<rparr>) = requested wld @ urls"
    by simp
  from run len keys perm req
  have "\<exists>results wld'. fetch_all e max_workers urls wld = (Inr results, wld') \<and>
            length results = length urls \<and>
            mset (map fst results) = mset urls \<and>
            mset results = mset (map (collect e) (enumerate 0 urls)) \<and>
            requested wld' = requested wld @ urls"
    by blast
  with fetch_all_Nil [OF pos] pool_trace_Nil_nothing_started show ?thesis by blast
qed

theorem one_result_per_url_witness:
  "(\<exists>results wld'. fetch_all example_env 2 example_urls example_world = (Inr results, wld') \<and>
      length results = length example_urls \<and>
      mset (map fst results) = mset example_urls \<and>
      mset results = mset (map (collect example_env) (enumerate 0 example_urls)) \<and>
      requested wld' = requested example_world @ example_urls) \<and>
   fetch_all example_env 2 [] example_world = (Inr [], example_world) \<and>
   list_all (\<lambda>p. started p = [] \<and> running p = [])
     (pool_trace (nat 2) (sched example_env) (submit_all []))"
  using one_result_per_url [of 2 example_env example_urls example_world] by simp

text \<open>
  C2. When the request of a submitted URL raises a transport-level error
  (\<^verbatim>\<open>requests.RequestException\<close>) with description \<open>cause\<close>, \<^verbatim>\<open>fetch_url\<close> returns the string
  \<^verbatim>\<open>"Error: "\<close> followed by \<open>cause\<close>; the fetch loop still returns normally, its result
  holds the pair of that URL and that string, and every other task's outcome is in the
  result as well.
\<close>

theorem transport_error_recorded:
  assumes "1 \<le> max_workers" and "i < length urls"
    and "net e i (urls ! i) = Raises (RequestException cause)"
  shows "fetch_url (net e i) (urls ! i) = Inr (''Error: '' @ cause) \<and>
         (\<exists>results wld'. fetch_all e max_workers urls wld = (Inr results, wld') \<and>
            (urls ! i, ''Error: '' @ cause) \<in> set results \<and>
            length results = length urls \<and>
            mset results = mset (map (collect e) (enumerate 0 urls)))"
proof -
  from assms(1) have pos: "0 < max_workers" by simp
  have err: "fetch_url (net e i) (urls ! i) = Inr (''Error: '' @ cause)"
    using assms(3) by (rule fetch_url_RequestException)
  then have col: "collect e (i, urls ! i) = (urls ! i, ''Error: '' @ cause)"
    by (simp add: collect_def)
  from fetch_all_run [OF pos, of urls e wld] obtain fin where
    fin: "mset fin = mset (enumerate 0 urls)" and
    run: "fetch_all e max_workers urls wld =
           (Inr (map (collect e) fin), wld\<lparr>requested := requested wld @ urls\<rparr>)"
    by blast
  from fin have sets: "set fin = set (enumerate 0 urls)" by (rule mset_eq_setD)
  with in_set_enumerate_nth [OF assms(2)] have "(i, urls ! i) \<in> set fin" by simp
  then have "collect e (i, urls ! i) \<in> set (map (collect e) fin)" by simp
  with col have mem: "(urls ! i, ''Error: '' @ cause) \<in> set (map (collect e) fin)" by simp
  from fin have "size (mset fin) = size (mset (enumerate 0 urls))" by simp
  then have len: "length (map (collect e) fin) = length urls" by simp
  have "mset (map (collect e) fin) = image_mset (collect e) (mset fin)" by simp
  with fin have perm: "mset (map (collect e) fin) = mset (map (collect e) (enumerate 0 urls))"
    by simp
  from run mem len perm err show ?thesis by blast
qed

theorem transport_error_recorded_witness:
  "fetch_url (net example_env 1) (example_urls ! 1) = Inr (''Error: '' @ ''connection refused'') \<and>
   (\<exists>results wld'. fetch_all example_env 2 example_urls example_world = (Inr results, wld') \<and>
      (example_urls ! 1, ''Error: '' @ ''connection refused'') \<in> set results \<and>
      length results = length example_urls \<and>
      mset results = mset (map (collect example_env) (enumerate 0 example_urls)))"
proof -
  have a: "(1::int) \<le> 2" by simp
  have b: "1 < length example_urls" by (simp add: example_urls_def)
  have c: "net example_env 1 (example_urls ! 1) = Raises (RequestException ''connection refused'')"
    by (simp add: example_env_def example_urls_def)
  from transport_error_recorded [OF a b c, of example_world] show ?thesis .
qed

text \<open>
  C3. For every URL list and every \<open>max_workers \<ge> 1\<close>, in every state the pool passes
  through under any interleaving of begin and complete events, at most \<open>max_workers\<close>
  tasks are running. Tasks begin in input order: the tasks begun so far are a prefix of
  the submitted list and the queue is the rest; each begun task is running or finished,
  once. Whenever a worker is free and a task is queued, the task that begins is the next
  one of the input.
\<close>

theorem at_most_max_workers_running:
  assumes "1 \<le> max_workers"
    and "p \<in> set (pool_trace (nat max_workers) (sched e) (submit_all urls))"
  shows "int (length (running p)) \<le> max_workers \<and>
         (\<exists>k. queue p = drop k (enumerate 0 urls) \<and> started p = take k (enumerate 0 urls)) \<and>
         mset (running p) + mset (finished p) = mset (started p) \<and>
         (queue p = [] \<or> length (running p) = nat max_workers \<or>
            pool_event (nat max_workers) Begin p =
              p\<lparr>queue := tl (queue p),
                running := running p @ [enumerate 0 urls ! length (started p)],
                started := started p @ [enumerate 0 urls ! length (started p)]\<rparr>)"
proof -
  let ?w = "nat max_workers" and ?ts = "enumerate 0 urls"
  have inv: "pool_inv ?w ?ts p"
    using pool_inv_submit_all assms(2) by (rule pool_inv_pool_trace)
  then have bound: "length (running p) \<le> ?w"
    and bal: "mset (running p) + mset (finished p) = mset (started p)"
    unfolding pool_inv_def by blast+
  from inv obtain k where k: "queue p = drop k ?ts" "started p = take k ?ts"
    unfolding pool_inv_def by blast
  from bound assms(1) have b': "int (length (running p)) \<le> max_workers" by linarith
  have reuse: "queue p = [] \<or> length (running p) = ?w \<or>
            pool_event ?w Begin p =
              p\<lparr>queue := tl (queue p), running := running p @ [?ts ! length (started p)],
                started := started p @ [?ts ! length (started p)]\<rparr>"
  proof (cases "queue p = [] \<or> length (running p) = ?w")
    case True
    then show ?thesis by blast
  next
    case False
    then obtain t q where tq: "queue p = t # q" by (cases "queue p") auto
    from False bound have free: "length (running p) < ?w" by simp
    from k(1) tq have d: "drop k ?ts = t # q" by simp
    then have klt: "k < length ?ts" by (cases "k < length ?ts") auto
    then have "drop k ?ts = ?ts ! k # drop (Suc k) ?ts" by (simp add: Cons_nth_drop_Suc)
    with d have t: "t = ?ts ! k" by simp
    from k(2) klt have "length (started p) = k" by simp
    with t have "t = ?ts ! length (started p)" by simp
    with pool_event_Begin_free [OF tq free] tq show ?thesis by simp
  qed
  from b' k bal reuse show ?thesis by blast
qed

theorem at_most_max_workers_running_witness:
  "example_pool \<in> set (pool_trace (nat 2) (sched example_env) (submit_all example_urls)) \<and>
   int (length (running example_pool)) \<le> 2 \<and>
   (\<exists>k. queue example_pool = drop k (enumerate 0 example_urls) \<and>
        started example_pool = take k (enumerate 0 example_urls)) \<and>
   mset (running example_pool) + mset (finished example_pool) = mset (started example_pool)"
proof -
  have a: "(1::int) \<le> 2" by simp
  have b: "example_pool \<in> set (pool_trace (nat 2) (sched example_env) (submit_all example_urls))"
    by (simp add: example_pool_def example_env_def example_urls_def submit_all_def)
  from at_most_max_workers_running [OF a b] b show ?thesis by blast
qed

text \<open>
  C4. The command-line script never reaches the input file: line 115 reads
  \<^verbatim>\<open>args.input_file\<close>, but the parser's positional argument is named \<^verbatim>\<open>input\<close> (line 106),
  so for every command line the script prints the banner and raises
  \<^verbatim>\<open>AttributeError\<close>; nothing is read, fetched or emitted.
\<close>

theorem script_attribute_error:
  "script e banner a wld = (Inl (AttributeError ''input_file''), py_print banner wld)"
  by (simp add: script_def read_urls_def getattr_def parse_args_def Let_def)

text \<open>
  C5. With \<open>max_workers \<ge> 1\<close>, CSV output requested and no output target (\<^verbatim>\<open>None\<close> or the
  empty string), \<^verbatim>\<open>main\<close> returns normally; it prints the message that CSV cannot go to
  standard output, after the JSON text if JSON was requested too, and nothing else; no
  file is touched; the value returned is the result list when \<open>return_list\<close> is set and
  \<^verbatim>\<open>None\<close> otherwise.
\<close>

theorem csv_to_stdout_rejected:
  assumes "1 \<le> max_workers" and "output_file = None \<or> output_file = Some []"
  shows "\<exists>results.
           fetch_all e max_workers urls wld =
             (Inr results, wld\<lparr>requested := requested wld @ urls\<rparr>) \<and>
           main e urls max_workers output_file output_json True return_list wld =
             (Inr (if return_list then Some results else None),
              wld\<lparr>requested := requested wld @ urls,
                  stdout := stdout wld
                    @ (if output_json then [json_dumps (dict_comp results)] else [])
                    @ [''Cannot output CSV to stdout. Please specify an output file.'']\<rparr>) \<and>
           files (snd (main e urls max_workers output_file output_json True return_list wld)) =
             files wld"
proof -
  from assms(1) have pos: "0 < max_workers" by simp
  from fetch_all_run [OF pos, of urls e wld] obtain fin where
    run: "fetch_all e max_workers urls wld =
           (Inr (map (collect e) fin), wld\<lparr>requested := requested wld @ urls\<rparr>)"
    by blast
  define results where "results = map (collect e) fin"
  define w1 where "w1 = wld\<lparr>requested := requested wld @ urls\<rparr>"
  define w2 where "w2 = (if output_json then py_print (json_dumps (dict_comp results)) w1 else w1)"
  define w3 where
    "w3 = py_print ''Cannot output CSV to stdout. Please specify an output file.'' w2"
  from run have fa: "fetch_all e max_workers urls wld = (Inr results, w1)"
    by (simp add: results_def w1_def)
  have j: "(if output_json then emit_json e output_file results w1 else (Inr (), w1)) = (Inr (), w2)"
    using assms(2) by (auto simp: emit_json_def w2_def)
  have c: "(if True then emit_csv e output_file results w2 else (Inr (), w2)) = (Inr (), w3)"
    using assms(2) by (auto simp: emit_csv_def w3_def)
  have w3: "w3 = wld\<lparr>requested := requested wld @ urls,
                  stdout := stdout wld
                    @ (if output_json then [json_dumps (dict_comp results)] else [])
                    @ [''Cannot output CSV to stdout. Please specify an output file.'']\<rparr>"
    by (simp add: w3_def w2_def w1_def py_print_def)
  from main_after_fetch [OF fa j c]
  have m: "main e urls max_workers output_file output_json True return_list wld =
             (Inr (if return_list then Some results else None), w3)" .
  have f: "files (snd (main e urls max_workers output_file output_json True return_list wld)) =
             files wld"
    by (simp add: m w3)
  from fa m f show ?thesis unfolding w3 w1_def by blast
qed

theorem csv_to_stdout_rejected_witness:
  "\<exists>results.
     fetch_all example_env 2 example_urls example_world =
       (Inr results, example_world\<lparr>requested := requested example_world @ example_urls\<rparr>) \<and>
     main example_env example_urls 2 None False True True example_world =
       (Inr (Some results),
        example_world\<lparr>requested := requested example_world @ example_urls,
          stdout := stdout example_world
            @ [''Cannot output CSV to stdout. Please specify an output file.'']\<rparr>) \<and>
     files (snd (main example_env example_urls 2 None False True True example_world)) =
       files example_world"
  using csv_to_stdout_rejected [of 2 None example_env example_urls example_world False True]
  by simp

text \<open>
  C6. In JSON mode (\<open>max_workers \<ge> 1\<close>) \<^verbatim>\<open>main\<close> emits one text, the serialisation of the
  mapping built from the collected pairs: it prints it when there is no output target
  (\<^verbatim>\<open>None\<close> or the empty string), writes it to the target otherwise, and raises \<^verbatim>\<open>OSError\<close>
  when the target cannot be opened. For every result list, read back as JSON that text
  is exactly the mapping: its keys are distinct, they are the URLs of the list, and each
  key is bound to the outcome of the last pair with that URL. For two pairs with one URL
  the text holds the one key, bound to the second outcome; for the URL \<^verbatim>\<open>http://a\<close> with
  the outcomes \<^verbatim>\<open>first\<close> and \<^verbatim>\<open>second\<close> it is the three lines shown.
\<close>

theorem json_duplicate_urls_last_wins:
  assumes "1 \<le> max_workers"
  shows
    "(\<exists>results w1.
        fetch_all e max_workers urls wld = (Inr results, w1) \<and>
        main e urls max_workers None True False return_list wld =
          (Inr (if return_list then Some results else None),
           w1\<lparr>stdout := stdout w1 @ [json_dumps (dict_comp results)]\<rparr>) \<and>
        main e urls max_workers (Some path) True False return_list wld =
          (if path = []
           then (Inr (if return_list then Some results else None),
                 w1\<lparr>stdout := stdout w1 @ [json_dumps (dict_comp results)]\<rparr>)
           else if writable e path
           then (Inr (if return_list then Some results else None),
                 w1\<lparr>files := (files w1)(path \<mapsto> json_dumps (dict_comp results))\<rparr>)
           else (Inl (OSError path), w1))) \<and>
     emit_json e None rs wld =
       (Inr (), wld\<lparr>stdout := stdout wld @ [json_dumps (dict_comp rs)]\<rparr>) \<and>
     emit_json e (Some path) rs wld =
       (if path = [] then (Inr (), wld\<lparr>stdout := stdout wld @ [json_dumps (dict_comp rs)]\<rparr>)
        else if writable e path
        then (Inr (), wld\<lparr>files := (files wld)(path \<mapsto> json_dumps (dict_comp rs))\<rparr>)
        else (Inl (OSError path), wld)) \<and>
     json_loads (json_dumps (dict_comp rs)) = Some (dict_comp rs) \<and>
     distinct (map fst (dict_comp rs)) \<and>
     set (map fst (dict_comp rs)) = fst ` set rs \<and>
     map_of (dict_comp rs) = map_of (rev rs) \<and>
     dict_comp [(url, x), (url, y)] = [(url, y)] \<and>
     json_loads (json_dumps (dict_comp [(url, x), (url, y)])) = Some [(url, y)] \<and>
     json_dumps (dict_comp [(''http://a'', ''first''), (''http://a'', ''second'')]) =
       ''{'' @ [CHR 0x0A] @
       ''  '' @ [CHR 0x22] @ ''http://a'' @ [CHR 0x22] @ '': '' @ [CHR 0x22] @ ''second'' @ [CHR 0x22]
         @ [CHR 0x0A] @
       ''}''"
proof -
  from assms have pos: "0 < max_workers" by simp
  from fetch_all_run [OF pos, of urls e wld] obtain fin where
    run: "fetch_all e max_workers urls wld =
           (Inr (map (collect e) fin), wld\<lparr>requested := requested wld @ urls\<rparr>)"
    by blast
  define results where "results = map (collect e) fin"
  define w1 where "w1 = wld\<lparr>requested := requested wld @ urls\<rparr>"
  define ret where "ret = (if return_list then Some results else None)"
  from run have fa: "fetch_all e max_workers urls wld = (Inr results, w1)"
    by (simp add: results_def w1_def)
  have m_none: "main e urls max_workers None True False return_list wld =
      (Inr ret, w1\<lparr>stdout := stdout w1 @ [json_dumps (dict_comp results)]\<rparr>)"
    by (simp add: main_def fa emit_json_def py_print_def ret_def)
  have m_some: "main e urls max_workers (Some path) True False return_list wld =
      (if path = []
       then (Inr ret, w1\<lparr>stdout := stdout w1 @ [json_dumps (dict_comp results)]\<rparr>)
       else if writable e path
       then (Inr ret, w1\<lparr>files := (files w1)(path \<mapsto> json_dumps (dict_comp results))\<rparr>)
       else (Inl (OSError path), w1))"
    by (simp add: main_def fa emit_json_def py_print_def write_file_def ret_def)
  from fa m_none m_some have through_main:
    "\<exists>results w1.
        fetch_all e max_workers urls wld = (Inr results, w1) \<and>
        main e urls max_workers None True False return_list wld =
          (Inr (if return_list then Some results else None),
           w1\<lparr>stdout := stdout w1 @ [json_dumps (dict_comp results)]\<rparr>) \<and>
        main e urls max_workers (Some path) True False return_list wld =
          (if path = []
           then (Inr (if return_list then Some results else None),
                 w1\<lparr>stdout := stdout w1 @ [json_dumps (dict_comp results)]\<rparr>)
           else if writable e path
           then (Inr (if return_list then Some results else None),
                 w1\<lparr>files := (files w1)(path \<mapsto> json_dumps (dict_comp results))\<rparr>)
           else (Inl (OSError path), w1))"
    unfolding ret_def by blast
  have e_none: "emit_json e None rs wld =
       (Inr (), wld\<lparr>stdout := stdout wld @ [json_dumps (dict_comp rs)]\<rparr>)"
    by (simp add: emit_json_def py_print_def)
  have e_some: "emit_json e (Some path) rs wld =
       (if path = [] then (Inr (), wld\<lparr>stdout := stdout wld @ [json_dumps (dict_comp rs)]\<rparr>)
        else if writable e path
        then (Inr (), wld\<lparr>files := (files wld)(path \<mapsto> json_dumps (dict_comp rs))\<rparr>)
        else (Inl (OSError path), wld))"
    by (simp add: emit_json_def py_print_def write_file_def)
  have dist: "distinct (map fst (dict_comp rs))"
    unfolding dict_comp_def by (rule distinct_foldl_update) simp
  have read_back: "json_loads (json_dumps (dict_comp rs)) = Some (dict_comp rs)"
    using dist by (rule json_loads_json_dumps)
  have keys: "set (map fst (dict_comp rs)) = fst ` set rs"
    unfolding dict_comp_def by (simp only: keys_foldl_update) simp
  have last_wins: "map_of (dict_comp rs) = map_of (rev rs)"
    unfolding dict_comp_def by (simp only: map_of_foldl_update) simp
  have two: "dict_comp [(url, x), (url, y)] = [(url, y)]"
    by (simp add: dict_comp_def)
  have "json_loads (json_dumps [(url, y)]) = Some [(url, y)]"
    by (rule json_loads_json_dumps) simp
  with two have two_back: "json_loads (json_dumps (dict_comp [(url, x), (url, y)])) = Some [(url, y)]"
    by simp
  have shown: "json_dumps (dict_comp [(''http://a'', ''first''), (''http://a'', ''second'')]) =
       ''{'' @ [CHR 0x0A] @
       ''  '' @ [CHR 0x22] @ ''http://a'' @ [CHR 0x22] @ '': '' @ [CHR 0x22] @ ''second'' @ [CHR 0x22]
         @ [CHR 0x0A] @
       ''}''"
    by (simp add: dict_comp_def json_dumps_def json_string_def json_escape_char_def)
  from through_main e_none e_some read_back dist keys last_wins two two_back shown
  show ?thesis by (intro conjI)
qed

theorem json_duplicate_urls_last_wins_witness:
  "(\<exists>results w1.
      fetch_all example_env 2 example_urls example_world = (Inr results, w1) \<and>
      main example_env example_urls 2 None True False True example_world =
        (Inr (Some results), w1\<lparr>stdout := stdout w1 @ [json_dumps (dict_comp results)]\<rparr>) \<and>
      main example_env example_urls 2 (Some ''out.json'') True False True example_world =
        (Inr (Some results),
         w1\<lparr>files := (files w1)(''out.json'' \<mapsto> json_dumps (dict_comp results))\<rparr>)) \<and>
   json_loads (json_dumps (dict_comp [(''http://a'', ''first''), (''http://a'', ''second'')])) =
     Some [(''http://a'', ''second'')]"
proof -
  have a: "(1::int) \<le> 2" by simp
  have b: "writable example_env ''out.json''" by (simp add: example_env_def)
  note inst = json_duplicate_urls_last_wins
    [OF a, where e = example_env and urls = example_urls and wld = example_world
       and return_list = True and path = "''out.json''" and url = "''http://a''"
       and x = "''first''" and y = "''second''"]
  from inst have through_main:
    "\<exists>results w1.
      fetch_all example_env 2 example_urls example_world = (Inr results, w1) \<and>
      main example_env example_urls 2 None True False True example_world =
        (Inr (Some results), w1\<lparr>stdout := stdout w1 @ [json_dumps (dict_comp results)]\<rparr>) \<and>
      main example_env example_urls 2 (Some ''out.json'') True False True example_world =
        (Inr (Some results),
         w1\<lparr>files := (files w1)(''out.json'' \<mapsto> json_dumps (dict_comp results))\<rparr>)"
    using b by simp
  from inst have read_back:
    "json_loads (json_dumps (dict_comp [(''http://a'', ''first''), (''http://a'', ''second'')])) =
       Some [(''http://a'', ''second'')]"
    by blast
  from through_main read_back show ?thesis by blast
qed

text \<open>
  C7. A request that completes at the transport level yields the response body as the
  outcome, whatever the HTTP status code: the status is never inspected, and the entry
  collected for the task is the pair of the URL and that body.
\<close>

theorem fetch_url_body_any_status:
  assumes "net e i url = Response status body"
  shows "fetch_url (net e i) url = Inr body \<and> collect e (i, url) = (url, body)"
  using assms by (simp add: fetch_url_def collect_def)

theorem fetch_url_body_any_status_witness:
  "fetch_url (net example_env 2) ''http://a'' = Inr ''second'' \<and>
   collect example_env (2, ''http://a'') = (''http://a'', ''second'')"
proof -
  have "net example_env 2 ''http://a'' = Response 404 ''second''"
    by (simp add: example_env_def)
  from fetch_url_body_any_status [OF this] show ?thesis .
qed

text \<open>
  C8. With \<open>max_workers \<ge> 1\<close>, and the output path open for writing where JSON or CSV is
  written to it, \<^verbatim>\<open>main\<close> returns the collected list when \<open>return_list\<close> is set and
  \<^verbatim>\<open>None\<close> otherwise, whatever was emitted before. With JSON, CSV and \<open>return_list\<close> all
  off it returns \<^verbatim>\<open>None\<close> and has printed and written nothing.
\<close>

theorem main_return_value:
  assumes "1 \<le> max_workers"
    and "\<And>path. output_file = Some path \<Longrightarrow> path \<noteq> [] \<Longrightarrow> output_json \<or> output_csv
           \<Longrightarrow> writable e path"
  shows "\<exists>results w1.
           fetch_all e max_workers urls wld = (Inr results, w1) \<and>
           fst (main e urls max_workers output_file output_json output_csv return_list wld) =
             Inr (if return_list then Some results else None) \<and>
           main e urls max_workers output_file False False False wld = (Inr None, w1) \<and>
           stdout w1 = stdout wld \<and> files w1 = files wld"
proof -
  from assms(1) have pos: "0 < max_workers" by simp
  from fetch_all_run [OF pos, of urls e wld] obtain fin where
    run: "fetch_all e max_workers urls wld =
           (Inr (map (collect e) fin), wld\<lparr>requested := requested wld @ urls\<rparr>)"
    by blast
  define results where "results = map (collect e) fin"
  define w1 where "w1 = wld\<lparr>requested := requested wld @ urls\<rparr>"
  from run have fa: "fetch_all e max_workers urls wld = (Inr results, w1)"
    by (simp add: results_def w1_def)
  have "\<exists>w2. (if output_json then emit_json e output_file results w1 else (Inr (), w1)) = (Inr (), w2)"
  proof (cases output_json)
    case True
    with assms(2) have "\<And>path. output_file = Some path \<Longrightarrow> path \<noteq> [] \<Longrightarrow> writable e path"
      by blast
    from emit_json_ok [OF this, of output_file results w1] True show ?thesis by simp
  next
    case False
    then show ?thesis by simp
  qed
  then obtain w2 where
    j: "(if output_json then emit_json e output_file results w1 else (Inr (), w1)) = (Inr (), w2)"
    by blast
  have "\<exists>w3. (if output_csv then emit_csv e output_file results w2 else (Inr (), w2)) = (Inr (), w3)"
  proof (cases output_csv)
    case True
    with assms(2) have "\<And>path. output_file = Some path \<Longrightarrow> path \<noteq> [] \<Longrightarrow> writable e path"
      by blast
    from emit_csv_ok [OF this, of output_file results w2] True show ?thesis by simp
  next
    case False
    then show ?thesis by simp
  qed
  then obtain w3 where
    c: "(if output_csv then emit_csv e output_file results w2 else (Inr (), w2)) = (Inr (), w3)"
    by blast
  from main_after_fetch [OF fa j c]
  have ret: "fst (main e urls max_workers output_file output_json output_csv return_list wld) =
             Inr (if return_list then Some results else None)"
    by simp
  have quiet: "main e urls max_workers output_file False False False wld = (Inr None, w1)"
    using main_after_fetch [OF fa, of False output_file w1 False w1 False] by simp
  have same: "stdout w1 = stdout wld \<and> files w1 = files wld" by (simp add: w1_def)
  from fa ret quiet same show ?thesis by blast
qed

theorem main_return_value_witness:
  "\<exists>results w1.
     fetch_all example_env 2 example_urls example_world = (Inr results, w1) \<and>
     fst (main example_env example_urls 2 (Some ''out.json'') True True True example_world) =
       Inr (Some results) \<and>
     main example_env example_urls 2 (Some ''out.json'') False False False example_world =
       (Inr None, w1) \<and>
     stdout w1 = stdout example_world \<and> files w1 = files example_world"
proof -
  have a: "(1::int) \<le> 2" by simp
  have b: "\<And>path. Some ''out.json'' = Some path \<Longrightarrow> path \<noteq> [] \<Longrightarrow> True \<or> True
             \<Longrightarrow> writable example_env path"
    by (simp add: example_env_def)
  from main_return_value
    [where max_workers = 2 and output_file = "Some ''out.json''" and output_json = True
       and output_csv = True and e = example_env and urls = example_urls
       and wld = example_world and return_list = True, OF a b]
  show ?thesis by simp
qed

text \<open>
  C9. JSON formatting is a function of the result list alone. Printed twice, the same
  results give the same text twice, and the text does not depend on the world the
  formatter starts from; written twice to a path that can be opened, the second run
  leaves the file with the same contents as the first.
\<close>

theorem json_format_deterministic:
  assumes "writable e path" and "path \<noteq> []"
  shows "emit_json e None results wld =
           (Inr (), wld\<lparr>stdout := stdout wld @ [json_dumps (dict_comp results)]\<rparr>) \<and>
         snd (emit_json e None results (snd (emit_json e None results wld))) =
           wld\<lparr>stdout := stdout wld
                  @ [json_dumps (dict_comp results), json_dumps (dict_comp results)]\<rparr> \<and>
         last (stdout (snd (emit_json e None results wld))) =
           last (stdout (snd (emit_json e None results wld'))) \<and>
         emit_json e (Some path) results wld =
           (Inr (), wld\<lparr>files := (files wld)(path \<mapsto> json_dumps (dict_comp results))\<rparr>) \<and>
         emit_json e (Some path) results (snd (emit_json e (Some path) results wld)) =
           emit_json e (Some path) results wld \<and>
         files (snd (emit_json e (Some path) results wld)) path =
           files (snd (emit_json e (Some path) results wld')) path"
  using assms by (simp add: emit_json_def py_print_def write_file_def)

theorem json_format_deterministic_witness:
  "emit_json example_env None [(''http://a'', ''x'')] example_world =
     (Inr (), example_world\<lparr>stdout := stdout example_world
        @ [json_dumps (dict_comp [(''http://a'', ''x'')])]\<rparr>) \<and>
   snd (emit_json example_env None [(''http://a'', ''x'')]
          (snd (emit_json example_env None [(''http://a'', ''x'')] example_world))) =
     example_world\<lparr>stdout := stdout example_world
        @ [json_dumps (dict_comp [(''http://a'', ''x'')]),
           json_dumps (dict_comp [(''http://a'', ''x'')])]\<rparr> \<and>
   emit_json example_env (Some ''out.json'') [(''http://a'', ''x'')]
       (snd (emit_json example_env (Some ''out.json'') [(''http://a'', ''x'')] example_world)) =
     emit_json example_env (Some ''out.json'') [(''http://a'', ''x'')] example_world"
proof -
  have a: "writable example_env ''out.json''" by (simp add: example_env_def)
  have b: "''out.json'' \<noteq> []" by simp
  from json_format_deterministic [OF a b, of "[(''http://a'', ''x'')]" example_world example_world]
  show ?thesis by blast
qed

text \<open>
  C10. For every \<open>max_workers \<le> 0\<close> the fetch loop, and so \<^verbatim>\<open>main\<close>, raises
  \<^verbatim>\<open>ValueError\<close> (from the constructor of the thread pool) and leaves the world as it
  was: no URL has been requested, nothing printed, nothing written, no result produced.
\<close>

theorem nonpositive_workers_raises:
  assumes "max_workers \<le> 0"
  shows "fetch_all e max_workers urls wld =
           (Inl (ValueError ''max_workers must be greater than 0''), wld) \<and>
         main e urls max_workers output_file output_json output_csv return_list wld =
           (Inl (ValueError ''max_workers must be greater than 0''), wld)"
  using assms by (simp add: main_def fetch_all_def)

theorem nonpositive_workers_raises_witness:
  "fetch_all example_env 0 example_urls example_world =
     (Inl (ValueError ''max_workers must be greater than 0''), example_world) \<and>
   main example_env example_urls 0 (Some ''out.json'') True True True example_world =
     (Inl (ValueError ''max_workers must be greater than 0''), example_world)"
  using nonpositive_workers_raises
    [of 0 example_env example_urls example_world "Some ''out.json''" True True True]
  by simp

end
